theory Spec2Isabelle
  imports Main
begin

section \<open>JavaScript values, promises and completions\<close>

text \<open>
  The values the two queues store, return and throw. \<open>Null\<close> and \<open>Undefined\<close> are the
  two values that the loose comparison \<open>== null\<close> accepts; \<open>QueueEmptyError\<close> and
  \<open>PromiseQueueEmptyError\<close> are the two exported error objects; \<open>Arr\<close> is an array (the
  only values \<open>Array.isArray\<close> accepts); \<open>Val\<close> is any other value.
\<close>

datatype 'v jsval =
    Null
  | Undefined
  | QueueEmptyError
  | PromiseQueueEmptyError
  | Val 'v
  | Arr "'v jsval list"

text \<open>\<open>x == null\<close>\<close>

definition nullish :: "'v jsval \<Rightarrow> bool" where
  "nullish x = (x = Null \<or> x = Undefined)"

text \<open>\<open>Array.isArray(x)\<close>, and the elements of an array.\<close>

fun isArray :: "'v jsval \<Rightarrow> bool" where
  "isArray (Arr xs) = True"
| "isArray x = False"

fun elements :: "'v jsval \<Rightarrow> 'v jsval list" where
  "elements (Arr xs) = xs"
| "elements x = []"

text \<open>How a call ends: it returns a value or throws one.\<close>

datatype ('r, 'v) completion = Returned 'r | Raised "'v jsval"

text \<open>A settled promise.\<close>

datatype 'v settled = Resolved "'v jsval" | Rejected "'v jsval"

text \<open>\<open>await p\<close> of a settled promise: its value, or its reason thrown.\<close>

fun await :: "'v settled \<Rightarrow> ('v jsval, 'v) completion" where
  "await (Resolved v) = Returned v"
| "await (Rejected e) = Raised e"

text \<open>
  \<open>xs.splice(start, deleteCount)\<close> for integer arguments: the removed elements and the
  array that is left, with the clamping of the built-in.
\<close>

definition splice :: "int \<Rightarrow> int \<Rightarrow> 'a list \<Rightarrow> 'a list \<times> 'a list" where
  "splice start deleteCount xs =
     (let len = int (length xs);
          actualStart = (if start < 0 then max (len + start) 0 else min start len);
          actualDeleteCount = min (max deleteCount 0) (len - actualStart)
      in (take (nat actualDeleteCount) (drop (nat actualStart) xs),
          take (nat actualStart) xs @ drop (nat (actualStart + actualDeleteCount)) xs))"

section \<open>Queue: the synchronous queue\<close>

record 'v Queue =
  q_array :: "'v jsval list"
  q_fifo :: bool

text \<open>
  \<open>constructor(initial?)\<close>: \<open>this._array = initial || []\<close>, FIFO by default. The queue
  keeps the caller's array itself; the model gives the queue that caller's array as it is
  at the call and says nothing of a caller who later changes it. The theorems below start
  from \<open>Queue_new None\<close>.
\<close>

definition Queue_new :: "'v jsval list option \<Rightarrow> 'v Queue" where
  "Queue_new initial =
     \<lparr>q_array = (case initial of Some xs \<Rightarrow> xs | None \<Rightarrow> []), q_fifo = True\<rparr>"

definition Queue_add :: "'v jsval \<Rightarrow> 'v Queue \<Rightarrow> 'v Queue" where
  "Queue_add item q =
     (if isArray item then q\<lparr>q_array := q_array q @ elements item\<rparr>
      else q\<lparr>q_array := q_array q @ [item]\<rparr>)"

definition Queue_clear :: "'v Queue \<Rightarrow> 'v Queue" where
  "Queue_clear q = q\<lparr>q_array := []\<rparr>"

definition Queue_nextIndex :: "'v Queue \<Rightarrow> int" where
  "Queue_nextIndex q = (if q_fifo q then 0 else int (length (q_array q)) - 1)"

definition Queue_element :: "'v Queue \<Rightarrow> ('v jsval, 'v) completion" where
  "Queue_element q =
     (if length (q_array q) = 0 then Raised QueueEmptyError
      else Returned (q_array q ! nat (Queue_nextIndex q)))"

definition Queue_peek :: "'v Queue \<Rightarrow> 'v jsval" where
  "Queue_peek q =
     (if length (q_array q) > 0 then q_array q ! nat (Queue_nextIndex q) else Null)"

definition Queue_remove :: "'v Queue \<Rightarrow> ('v jsval, 'v) completion \<times> 'v Queue" where
  "Queue_remove q =
     (if length (q_array q) = 0 then (Raised QueueEmptyError, q)
      else (let (removed, rest) = splice (Queue_nextIndex q) 1 (q_array q)
            in (Returned (removed ! 0), q\<lparr>q_array := rest\<rparr>)))"

definition Queue_poll :: "'v Queue \<Rightarrow> 'v jsval \<times> 'v Queue" where
  "Queue_poll q =
     (if length (q_array q) > 0
      then (let (removed, rest) = splice (Queue_nextIndex q) 1 (q_array q)
            in (removed ! 0, q\<lparr>q_array := rest\<rparr>))
      else (Null, q))"

definition Queue_size :: "'v Queue \<Rightarrow> nat" where
  "Queue_size q = length (q_array q)"

definition Queue_useFIFO :: "'v Queue \<Rightarrow> 'v Queue" where
  "Queue_useFIFO q = q\<lparr>q_fifo := True\<rparr>"

definition Queue_useFILO :: "'v Queue \<Rightarrow> 'v Queue" where
  "Queue_useFILO q = q\<lparr>q_fifo := False\<rparr>"

text \<open>A run of \<open>n\<close> calls of \<open>poll()\<close>: the values returned, in order, and the queue left.\<close>

primrec Queue_polls :: "nat \<Rightarrow> 'v Queue \<Rightarrow> 'v jsval list \<times> 'v Queue" where
  "Queue_polls 0 q = ([], q)"
| "Queue_polls (Suc n) q =
     (let (v, q1) = Queue_poll q; (vs, q2) = Queue_polls n q1 in (v # vs, q2))"

text \<open>A run of \<open>add\<close> calls, one per argument.\<close>

definition Queue_adds :: "'v jsval list \<Rightarrow> 'v Queue \<Rightarrow> 'v Queue" where
  "Queue_adds items q = fold Queue_add items q"

text \<open>
  Insertion order: the values a run of \<open>add\<close> calls was given, one by one, an array
  argument counting as its elements in their order.
\<close>

definition insertion_order :: "'v jsval list \<Rightarrow> 'v jsval list" where
  "insertion_order items =
     concat (map (\<lambda>item. if isArray item then elements item else [item]) items)"

section \<open>PromiseQueue: the queue of deferred work\<close>

text \<open>
  An entry of the queue, \<open>{ func, args }\<close>. A callable is named by a reference \<open>'f\<close>; what
  calling it does is given by \<open>run\<close>, a parameter of every operation that may call one:
  \<open>run f as w\<close> is what the call \<open>f(...as)\<close> does when the world outside the queue is \<open>w\<close>,
  together with the world the call leaves. A callable may therefore answer differently
  each time it is called. The call either returns a promise (\<open>Promise p\<close>, with \<open>p\<close> what
  the promise settles to; a callable that returns a plain value \<open>v\<close> counts as
  \<open>Promise (Resolved v)\<close>, since \<open>await\<close> and \<open>Promise.all\<close> treat it so), or it throws at once
  (\<open>Throws e\<close>), as a callable that is not an \<open>async\<close> function can. Callables are assumed
  not to call back into the queue.
\<close>

datatype 'v call = Promise "'v settled" | Throws "'v jsval"

text \<open>What the caller of \<open>await f(...as)\<close> gets.\<close>

fun completes :: "'v call \<Rightarrow> ('v jsval, 'v) completion" where
  "completes (Promise p) = await p"
| "completes (Throws e) = Raised e"

record ('f, 'v) item =
  func :: 'f
  args :: "'v jsval list"

type_synonym ('f, 'v, 'w) callables = "'f \<Rightarrow> 'v jsval list \<Rightarrow> 'w \<Rightarrow> 'v call \<times> 'w"

text \<open>
  The fields of the class, \<open>_array\<close>, \<open>_cached\<close>, \<open>_result\<close>, \<open>_error\<close> and \<open>_fifo\<close>, and two
  observers that are not fields of the class: the world the callables act on, and the log
  of the entries whose callable has been called, in call order.
\<close>

record ('f, 'v, 'w) PromiseQueue =
  array :: "('f, 'v) item list"
  cached :: bool
  result :: "'v jsval"
  error :: "'v jsval"
  fifo :: bool
  world :: 'w
  invoked :: "('f, 'v) item list"

definition PromiseQueue_new :: "'w \<Rightarrow> ('f, 'v, 'w) PromiseQueue" where
  "PromiseQueue_new w =
     \<lparr>array = [], cached = False, result = Null, error = Null, fifo = True,
      world = w, invoked = []\<rparr>"

text \<open>\<open>func(...args)\<close> for an entry: the call is logged and the world updated.\<close>

definition invoke ::
  "('f, 'v, 'w) callables \<Rightarrow> ('f, 'v) item \<Rightarrow> ('f, 'v, 'w) PromiseQueue
     \<Rightarrow> 'v call \<times> ('f, 'v, 'w) PromiseQueue" where
  "invoke run it s =
     (let (r, w) = run (func it) (args it) (world s)
      in (r, s\<lparr>world := w, invoked := invoked s @ [it]\<rparr>))"

definition PromiseQueue_add ::
  "'f \<Rightarrow> 'v jsval list \<Rightarrow> ('f, 'v, 'w) PromiseQueue \<Rightarrow> ('f, 'v, 'w) PromiseQueue" where
  "PromiseQueue_add f as s =
     s\<lparr>array := array s @ [\<lparr>func = f, args = (if length as = 0 then [] else as)\<rparr>]\<rparr>"

definition PromiseQueue_clear :: "('f, 'v, 'w) PromiseQueue \<Rightarrow> ('f, 'v, 'w) PromiseQueue" where
  "PromiseQueue_clear s = s\<lparr>array := [], cached := False, result := Null, error := Null\<rparr>"

definition PromiseQueue_size :: "('f, 'v, 'w) PromiseQueue \<Rightarrow> nat" where
  "PromiseQueue_size s = length (array s)"

definition PromiseQueue_nextIndex :: "('f, 'v, 'w) PromiseQueue \<Rightarrow> int" where
  "PromiseQueue_nextIndex s = (if fifo s then 0 else int (length (array s)) - 1)"

definition PromiseQueue_nextBatchIndex :: "int \<Rightarrow> ('f, 'v, 'w) PromiseQueue \<Rightarrow> int" where
  "PromiseQueue_nextBatchIndex n s =
     (if fifo s then 0 else max 0 (int (length (array s)) - n))"

definition PromiseQueue_useFIFO :: "('f, 'v, 'w) PromiseQueue \<Rightarrow> ('f, 'v, 'w) PromiseQueue" where
  "PromiseQueue_useFIFO s = s\<lparr>fifo := True\<rparr>"

definition PromiseQueue_useFILO :: "('f, 'v, 'w) PromiseQueue \<Rightarrow> ('f, 'v, 'w) PromiseQueue" where
  "PromiseQueue_useFILO s = s\<lparr>fifo := False\<rparr>"

text \<open>
  \<open>peek\<close> is an asynchronous function with one suspension point, \<open>yield func(...args)\<close>.
  \<open>PromiseQueue_peek_begin\<close> is the code that runs when \<open>peek()\<close> is called, up to that
  point: it either finishes at once (\<open>Inl\<close>: a cached outcome, \<open>null\<close> for an empty
  queue, or the \<open>catch\<close> block after a callable that threw at once) or has called the
  head's callable and waits for its promise (\<open>Inr\<close>).
  \<open>PromiseQueue_peek_resume\<close> is the code that runs when that promise has settled: the
  \<open>try\<close> block's remainder, or the \<open>catch\<close> block. Other calls can run between the two.
\<close>

definition PromiseQueue_peek_begin ::
  "('f, 'v, 'w) callables \<Rightarrow> ('f, 'v, 'w) PromiseQueue
     \<Rightarrow> (('v jsval, 'v) completion + 'v settled) \<times> ('f, 'v, 'w) PromiseQueue" where
  "PromiseQueue_peek_begin run s =
     (if cached s
      then (if \<not> nullish (error s) then (Inl (Raised (error s)), s)
            else (Inl (Returned (result s)), s))
      else if length (array s) > 0
      then (let (r, s1) = invoke run (array s ! nat (PromiseQueue_nextIndex s)) s
            in case r of
                 Promise p \<Rightarrow> (Inr p, s1)
               | Throws e \<Rightarrow>
                   (Inl (Raised e), s1\<lparr>cached := True, result := Null, error := e\<rparr>))
      else (Inl (Returned Null), s))"

definition PromiseQueue_peek_resume ::
  "'v settled \<Rightarrow> ('f, 'v, 'w) PromiseQueue
     \<Rightarrow> ('v jsval, 'v) completion \<times> ('f, 'v, 'w) PromiseQueue" where
  "PromiseQueue_peek_resume p s =
     (case p of
        Resolved v \<Rightarrow> (Returned v, s\<lparr>result := v, error := Null, cached := True\<rparr>)
      | Rejected e \<Rightarrow> (Raised e, s\<lparr>cached := True, result := Null, error := e\<rparr>))"

text \<open>\<open>await queue.peek()\<close> with nothing running in between.\<close>

definition PromiseQueue_peek ::
  "('f, 'v, 'w) callables \<Rightarrow> ('f, 'v, 'w) PromiseQueue
     \<Rightarrow> ('v jsval, 'v) completion \<times> ('f, 'v, 'w) PromiseQueue" where
  "PromiseQueue_peek run s =
     (case PromiseQueue_peek_begin run s of
        (Inl c, s1) \<Rightarrow> (c, s1)
      | (Inr p, s1) \<Rightarrow> PromiseQueue_peek_resume p s1)"

definition PromiseQueue_element ::
  "('f, 'v, 'w) callables \<Rightarrow> ('f, 'v, 'w) PromiseQueue
     \<Rightarrow> ('v jsval, 'v) completion \<times> ('f, 'v, 'w) PromiseQueue" where
  "PromiseQueue_element run s =
     (case PromiseQueue_peek run s of
        (Raised e, s1) \<Rightarrow> (Raised e, s1)
      | (Returned el, s1) \<Rightarrow>
          (if nullish el then (Raised PromiseQueueEmptyError, s1) else (Returned el, s1)))"

text \<open>
  \<open>poll\<close> changes the queue only before it calls the callable; it returns the callable's
  own promise, or throws what the callable threw.
\<close>

definition PromiseQueue_poll ::
  "('f, 'v, 'w) callables \<Rightarrow> ('f, 'v, 'w) PromiseQueue
     \<Rightarrow> ('v jsval, 'v) completion \<times> ('f, 'v, 'w) PromiseQueue" where
  "PromiseQueue_poll run s =
     (if length (array s) = 0 then (Returned Null, s)
      else (let (removed, rest) = splice (PromiseQueue_nextIndex s) 1 (array s);
                it = removed ! 0;
                s1 = s\<lparr>array := rest\<rparr>
            in if cached s1
               then (let s2 = s1\<lparr>cached := False\<rparr>
                     in if \<not> nullish (error s2) then (Raised (error s2), s2)
                        else (Returned (result s2), s2))
               else (let (r, s2) = invoke run it s1 in (completes r, s2))))"

definition PromiseQueue_remove ::
  "('f, 'v, 'w) callables \<Rightarrow> ('f, 'v, 'w) PromiseQueue
     \<Rightarrow> ('v jsval, 'v) completion \<times> ('f, 'v, 'w) PromiseQueue" where
  "PromiseQueue_remove run s =
     (case PromiseQueue_poll run s of
        (Raised e, s1) \<Rightarrow> (Raised e, s1)
      | (Returned el, s1) \<Rightarrow>
          (if nullish el then (Raised PromiseQueueEmptyError, s1) else (Returned el, s1)))"

text \<open>
  \<open>next.map(({ func, args }) => func(...args))\<close>: the callables are called in order. The
  result is the array of their promises (\<open>Inr\<close>); when one of them throws at once, \<open>map\<close>
  ends there with what it threw (\<open>Inl\<close>), and the entries after it are not called.
\<close>

fun invoke_all ::
  "('f, 'v, 'w) callables \<Rightarrow> ('f, 'v) item list \<Rightarrow> ('f, 'v, 'w) PromiseQueue
     \<Rightarrow> ('v jsval + 'v settled list) \<times> ('f, 'v, 'w) PromiseQueue" where
  "invoke_all run [] s = (Inr [], s)"
| "invoke_all run (it # its) s =
     (let (r, s1) = invoke run it s
      in case r of
           Throws e \<Rightarrow> (Inl e, s1)
         | Promise p \<Rightarrow>
             (case invoke_all run its s1 of
                (Inl e, s2) \<Rightarrow> (Inl e, s2)
              | (Inr ps, s2) \<Rightarrow> (Inr (p # ps), s2)))"

text \<open>
  \<open>await Promise.all(ps)\<close>: the array of the values when every promise is resolved;
  otherwise the reason of the promise that is rejected first in time. The model has no
  clock, so the result is the set of the completions that are possible.
\<close>

fun reasons :: "'v settled list \<Rightarrow> 'v jsval list" where
  "reasons [] = []"
| "reasons (Resolved v # ps) = reasons ps"
| "reasons (Rejected e # ps) = e # reasons ps"

fun fulfilled :: "'v settled list \<Rightarrow> 'v jsval list" where
  "fulfilled [] = []"
| "fulfilled (Resolved v # ps) = v # fulfilled ps"
| "fulfilled (Rejected e # ps) = fulfilled ps"

definition Promise_all :: "'v settled list \<Rightarrow> ('v jsval, 'v) completion set" where
  "Promise_all ps =
     (if reasons ps = [] then {Returned (Arr (fulfilled ps))} else Raised ` set (reasons ps))"

definition PromiseQueue_batch ::
  "('f, 'v, 'w) callables \<Rightarrow> int \<Rightarrow> ('f, 'v, 'w) PromiseQueue
     \<Rightarrow> ('v jsval, 'v) completion set \<times> ('f, 'v, 'w) PromiseQueue" where
  "PromiseQueue_batch run n s =
     (if length (array s) = 0 \<or> n < 1 then ({Returned (Arr [])}, s)
      else (let (next, rest) = splice (PromiseQueue_nextBatchIndex n s) n (array s)
            in case invoke_all run next (s\<lparr>array := rest\<rparr>) of
                 (Inl e, s1) \<Rightarrow> ({Raised e}, s1)
               | (Inr ps, s1) \<Rightarrow> (Promise_all ps, s1)))"

text \<open>
  The cache slot as \<open>peek\<close> and \<open>poll\<close> read it: nothing unless \<open>_cached\<close>; then a failure
  when \<open>_error != null\<close>, and the success \<open>_result\<close> otherwise.
\<close>

datatype 'v slot = Absent | Success "'v jsval" | Failure "'v jsval"

definition cache :: "('f, 'v, 'w) PromiseQueue \<Rightarrow> 'v slot" where
  "cache s =
     (if cached s then (if \<not> nullish (error s) then Failure (error s) else Success (result s))
      else Absent)"

text \<open>The entries in the order in which \<open>poll\<close> would take them, the head first.\<close>

definition access_order :: "('f, 'v, 'w) PromiseQueue \<Rightarrow> ('f, 'v) item list" where
  "access_order s = (if fifo s then array s else rev (array s))"

text \<open>
  The asynchronous iterator: \<open>next()\<close> polls, and \<open>return()\<close>, which a \<open>for await\<close> loop
  calls when its body leaves the loop early, peeks. An iterator result is the pair of
  \<open>value\<close> and \<open>done\<close>.
\<close>

definition iterator_next ::
  "('f, 'v, 'w) callables \<Rightarrow> ('f, 'v, 'w) PromiseQueue
     \<Rightarrow> ('v jsval \<times> bool, 'v) completion \<times> ('f, 'v, 'w) PromiseQueue" where
  "iterator_next run s =
     (let done = (PromiseQueue_size s = 0)
      in case PromiseQueue_poll run s of
           (Raised e, s1) \<Rightarrow> (Raised e, s1)
         | (Returned v, s1) \<Rightarrow> (Returned (v, done), s1))"

definition iterator_return ::
  "('f, 'v, 'w) callables \<Rightarrow> ('f, 'v, 'w) PromiseQueue
     \<Rightarrow> ('v jsval \<times> bool, 'v) completion \<times> ('f, 'v, 'w) PromiseQueue" where
  "iterator_return run s =
     (case PromiseQueue_peek run s of
        (Raised e, s1) \<Rightarrow> (Raised e, s1)
      | (Returned v, s1) \<Rightarrow> (Returned (v, True), s1))"

text \<open>
  \<open>for await (const v of queue) { if (brk(v)) break }\<close>: the values the body has seen, how
  the loop ended, and the queue it leaves. The loop ends when \<open>next()\<close> reports \<open>done\<close>, when
  \<open>next()\<close> throws (then \<open>return()\<close> is not called), or when the body breaks, after which
  \<open>return()\<close> is awaited.
\<close>

datatype 'v loop_exit = Exhausted | Broke | NextThrew "'v jsval" | ReturnThrew "'v jsval"

function for_await ::
  "('f, 'v, 'w) callables \<Rightarrow> ('v jsval \<Rightarrow> bool) \<Rightarrow> ('f, 'v, 'w) PromiseQueue
     \<Rightarrow> 'v jsval list \<times> 'v loop_exit \<times> ('f, 'v, 'w) PromiseQueue" where
  "for_await run brk s =
     (case iterator_next run s of
        (Raised e, s1) \<Rightarrow> ([], NextThrew e, s1)
      | (Returned (v, done), s1) \<Rightarrow>
          (if done then ([], Exhausted, s1)
           else if brk v
           then (case iterator_return run s1 of
                   (Raised e, s2) \<Rightarrow> ([v], ReturnThrew e, s2)
                 | (Returned r, s2) \<Rightarrow> ([v], Broke, s2))
           else (let (vs, x, s2) = for_await run brk s1 in (v # vs, x, s2))))"
  by pat_completeness auto
termination
  by (relation "measure (\<lambda>(run, brk, s). length (array s))")
     (auto simp: iterator_next_def PromiseQueue_poll_def PromiseQueue_size_def
        PromiseQueue_nextIndex_def splice_def invoke_def Let_def nat_less_iff
        split: if_splits prod.splits completion.splits call.splits)

declare for_await.simps [simp del]





text \<open>
  Three callables to evaluate the queue on: \<open>async (x) => x\<close>,
  \<open>async (e) => { throw e }\<close> and \<open>(e) => { throw e }\<close>, which is not \<open>async\<close> and throws at
  once; a missing argument is \<open>undefined\<close>. The world counts the calls.
\<close>

datatype sample = Echo | Fail | Crash

fun sample_run :: "(sample, nat, nat) callables" where
  "sample_run Echo as w =
     (Promise (Resolved (case as of [] \<Rightarrow> Undefined | a # _ \<Rightarrow> a)), Suc w)"
| "sample_run Fail as w =
     (Promise (Rejected (case as of [] \<Rightarrow> Undefined | a # _ \<Rightarrow> a)), Suc w)"
| "sample_run Crash as w = (Throws (case as of [] \<Rightarrow> Undefined | a # _ \<Rightarrow> a), Suc w)"

section \<open>Properties of the synchronous queue\<close>

lemma splice_first: "xs \<noteq> [] \<Longrightarrow> splice 0 1 xs = ([hd xs], tl xs)"
  by (cases xs) (simp_all add: splice_def Let_def)

lemma splice_last:
  "xs \<noteq> [] \<Longrightarrow> splice (int (length xs) - 1) 1 xs = ([last xs], butlast xs)"
proof -
  assume ne: "xs \<noteq> []"
  then have len: "0 < length xs" by simp
  have a: "nat (int (length xs) - 1) = length xs - 1" by simp
  have d: "drop (length xs - 1) xs = [last xs]"
    using ne by (induction xs) (auto simp: drop_Cons' split: if_splits)
  have t: "take (length xs - 1) xs = butlast xs"
    by (simp add: butlast_conv_take)
  show ?thesis
    using len d t by (simp add: splice_def Let_def a min_def max_def)
qed

lemma Queue_poll_fifo:
  "q_array q \<noteq> [] \<Longrightarrow> q_fifo q \<Longrightarrow>
     Queue_poll q = (hd (q_array q), q\<lparr>q_array := tl (q_array q)\<rparr>)"
  by (simp add: Queue_poll_def Queue_nextIndex_def splice_first)

lemma Queue_poll_filo:
  "q_array q \<noteq> [] \<Longrightarrow> \<not> q_fifo q \<Longrightarrow>
     Queue_poll q = (last (q_array q), q\<lparr>q_array := butlast (q_array q)\<rparr>)"
  by (simp add: Queue_poll_def Queue_nextIndex_def splice_last)

lemma Queue_polls_fifo:
  "q_fifo q \<Longrightarrow> k \<le> length (q_array q) \<Longrightarrow>
     Queue_polls k q = (take k (q_array q), q\<lparr>q_array := drop k (q_array q)\<rparr>)"
proof (induction k arbitrary: q)
  case 0
  then show ?case by simp
next
  case (Suc k)
  then have ne: "q_array q \<noteq> []" by auto
  let ?q1 = "q\<lparr>q_array := tl (q_array q)\<rparr>"
  have p: "Queue_poll q = (hd (q_array q), ?q1)"
    using ne Suc.prems(1) by (rule Queue_poll_fifo)
  have "Queue_polls k ?q1 = (take k (q_array ?q1), ?q1\<lparr>q_array := drop k (q_array ?q1)\<rparr>)"
    using Suc.prems by (intro Suc.IH) auto
  then show ?case
    using ne p by (cases "q_array q") (simp_all add: drop_Suc)
qed

lemma Queue_polls_filo:
  "\<not> q_fifo q \<Longrightarrow> k \<le> length (q_array q) \<Longrightarrow>
     Queue_polls k q =
       (take k (rev (q_array q)), q\<lparr>q_array := take (length (q_array q) - k) (q_array q)\<rparr>)"
proof (induction k arbitrary: q)
  case 0
  then show ?case by simp
next
  case (Suc k)
  then have ne: "q_array q \<noteq> []" by auto
  let ?q1 = "q\<lparr>q_array := butlast (q_array q)\<rparr>"
  have p: "Queue_poll q = (last (q_array q), ?q1)"
    using ne Suc.prems(1) by (rule Queue_poll_filo)
  have ih: "Queue_polls k ?q1 =
      (take k (rev (q_array ?q1)), ?q1\<lparr>q_array := take (length (q_array ?q1) - k) (q_array ?q1)\<rparr>)"
    using Suc.prems by (intro Suc.IH) auto
  have "rev (q_array q) = rev (butlast (q_array q) @ [last (q_array q)])"
    using ne by simp
  then have r: "take (Suc k) (rev (q_array q)) = last (q_array q) # take k (rev (butlast (q_array q)))"
    by (simp only: rev_append rev.simps append.simps take_Suc_Cons)
  have t: "take (length (q_array q) - Suc k) (butlast (q_array q)) = take (length (q_array q) - Suc k) (q_array q)"
    by (simp add: butlast_conv_take)
  show ?case
    using p ih t by (simp add: r)
qed

lemma Queue_adds_array:
  "q_array (Queue_adds items q) = q_array q @ insertion_order items"
  unfolding Queue_adds_def insertion_order_def
  by (induction items arbitrary: q) (simp_all add: Queue_add_def)

lemma Queue_adds_fifo: "q_fifo (Queue_adds items q) = q_fifo q"
  unfolding Queue_adds_def
  by (induction items arbitrary: q) (simp_all add: Queue_add_def)

lemma not_self_nested: "xs \<noteq> [Arr xs]"
proof
  assume "xs = [Arr xs]"
  then have "size (Arr xs) = size (Arr [Arr xs])" by simp
  then show False by simp
qed

text \<open>
  \<open>element\<close> and \<open>remove\<close> of the synchronous queue test the length: they throw exactly on
  the empty queue, where \<open>peek\<close> and \<open>poll\<close> return \<open>null\<close>.
\<close>

lemma Queue_element_raises_iff:
  "(Queue_element q = Raised QueueEmptyError) = (Queue_size q = 0)"
  by (simp add: Queue_element_def Queue_size_def)

lemma Queue_remove_raises_iff:
  "(fst (Queue_remove q) = Raised QueueEmptyError) = (Queue_size q = 0)"
  by (simp add: Queue_remove_def Queue_size_def case_prod_beta)

lemma Queue_peek_poll_empty:
  "Queue_size q = 0 \<Longrightarrow> Queue_peek q = Null \<and> Queue_poll q = (Null, q)"
  by (simp add: Queue_peek_def Queue_poll_def Queue_size_def)

text \<open>
  Claim C8. For every run of \<open>add\<close> calls on a new queue, polling under FIFO returns the
  items in insertion order and polling under FILO returns them in reverse insertion order.
  \<open>useFIFO\<close> and \<open>useFILO\<close> leave the stored array as it is; \<open>k\<close> polls return the first
  \<open>k\<close> items from the end the current mode reads and leave the others in their stored
  order, so a switch after \<open>k\<close> polls changes only which end the later polls read.
\<close>

theorem Queue_poll_order:
  "fst (Queue_polls (length (insertion_order items)) (Queue_adds items (Queue_new None)))
     = insertion_order items
   \<and> fst (Queue_polls (length (insertion_order items))
            (Queue_useFILO (Queue_adds items (Queue_new None))))
     = rev (insertion_order items)
   \<and> q_array (Queue_useFILO q) = q_array q
   \<and> q_array (Queue_useFIFO q) = q_array q
   \<and> (k \<le> Queue_size q \<longrightarrow>
        fst (Queue_polls k q) = take k (if q_fifo q then q_array q else rev (q_array q))
        \<and> q_array (snd (Queue_polls k q))
            = (if q_fifo q then drop k (q_array q) else take (Queue_size q - k) (q_array q))
        \<and> q_fifo (snd (Queue_polls k q)) = q_fifo q)
   \<and> (k \<le> Queue_size q \<and> m \<le> Queue_size q - k \<longrightarrow>
        fst (Queue_polls m (Queue_useFILO (snd (Queue_polls k q))))
          = take m (rev (q_array (snd (Queue_polls k q))))
        \<and> fst (Queue_polls m (Queue_useFIFO (snd (Queue_polls k q))))
          = take m (q_array (snd (Queue_polls k q))))"
proof -
  let ?q0 = "Queue_adds items (Queue_new None)"
  have arr0: "q_array ?q0 = insertion_order items"
    by (simp add: Queue_adds_array Queue_new_def)
  have fifo0: "q_fifo ?q0"
    by (simp add: Queue_adds_fifo Queue_new_def)
  have a: "fst (Queue_polls (length (insertion_order items)) ?q0) = insertion_order items"
    using Queue_polls_fifo [OF fifo0, of "length (insertion_order items)"] arr0 by simp
  have b: "fst (Queue_polls (length (insertion_order items)) (Queue_useFILO ?q0))
             = rev (insertion_order items)"
    using Queue_polls_filo [of "Queue_useFILO ?q0" "length (insertion_order items)"] arr0
    by (simp add: Queue_useFILO_def)
  have c: "fst (Queue_polls k q) = take k (if q_fifo q then q_array q else rev (q_array q))
        \<and> q_array (snd (Queue_polls k q))
            = (if q_fifo q then drop k (q_array q) else take (Queue_size q - k) (q_array q))
        \<and> q_fifo (snd (Queue_polls k q)) = q_fifo q" if "k \<le> Queue_size q"
    using that Queue_polls_fifo [of q k] Queue_polls_filo [of q k]
    by (cases "q_fifo q") (simp_all add: Queue_size_def)
  have d: "fst (Queue_polls m (Queue_useFILO (snd (Queue_polls k q))))
          = take m (rev (q_array (snd (Queue_polls k q))))
        \<and> fst (Queue_polls m (Queue_useFIFO (snd (Queue_polls k q))))
          = take m (q_array (snd (Queue_polls k q)))"
    if "k \<le> Queue_size q \<and> m \<le> Queue_size q - k"
  proof -
    let ?q1 = "snd (Queue_polls k q)"
    have "length (q_array ?q1) = Queue_size q - k"
      using c that by (cases "q_fifo q") (simp_all add: Queue_size_def)
    then have m: "m \<le> length (q_array ?q1)" using that by simp
    show ?thesis
      using Queue_polls_filo [of "Queue_useFILO ?q1" m] Queue_polls_fifo [of "Queue_useFIFO ?q1" m] m
      by (simp add: Queue_useFILO_def Queue_useFIFO_def)
  qed
  show ?thesis
    using a b c d by (simp add: Queue_useFILO_def Queue_useFIFO_def)
qed

theorem Queue_poll_order_witness:
  "fst (Queue_polls 3 (Queue_adds [Val 1, Arr [Val 2, Val 3]] (Queue_new None)))
     = [Val (1::nat), Val 2, Val 3]
   \<and> fst (Queue_polls 3 (Queue_useFILO (Queue_adds [Val 1, Arr [Val 2, Val 3]] (Queue_new None))))
     = [Val (3::nat), Val 2, Val 1]
   \<and> fst (Queue_polls 2 (Queue_useFILO (snd (Queue_polls 1
         \<lparr>q_array = [Val 1, Val 2, Val (3::nat)], q_fifo = True\<rparr>))))
     = [Val 3, Val 2]"
  using Queue_poll_order [of "[Val 1, Arr [Val 2, Val (3::nat)]]"
      "\<lparr>q_array = [Val 1, Val 2, Val (3::nat)], q_fifo = True\<rparr>" 1 2]
  by (simp add: insertion_order_def Queue_size_def Queue_adds_def Queue_add_def Queue_new_def
      Queue_poll_def Queue_nextIndex_def Queue_useFILO_def Queue_useFIFO_def splice_def
      eval_nat_numeral)

text \<open>
  Claim C10, as stated, fails: \<open>add([[1, 2]])\<close> stores the array \<open>[1, 2]\<close> as one item.
\<close>

theorem Queue_add_array_item_counterexample:
  "q_array (Queue_add (Arr [Arr [Val 1, Val 2]]) (Queue_new None)) = [Arr [Val (1::nat), Val 2]]
   \<and> Queue_size (Queue_add (Arr [Arr [Val 1, Val (2::nat)]]) (Queue_new None)) = 1"
  by (simp add: Queue_add_def Queue_new_def Queue_size_def)

text \<open>
  Claim C10, amended. \<open>add\<close> flattens an array argument by one level: \<open>add(xs)\<close> appends
  the elements of \<open>xs\<close> in order, so the size grows by \<open>xs.length\<close> (by 0 for the empty
  array). An array passed to \<open>add\<close> directly is therefore never stored as one item; it is
  stored as one item when it is wrapped in an outer array, \<open>add([xs])\<close>.
\<close>

theorem Queue_add_flattens:
  "q_array (Queue_add (Arr xs) q) = q_array q @ xs
   \<and> Queue_size (Queue_add (Arr xs) q) = Queue_size q + length xs
   \<and> Queue_size (Queue_add (Arr []) q) = Queue_size q
   \<and> q_array (Queue_add (Arr xs) q) \<noteq> q_array q @ [Arr xs]
   \<and> q_array (Queue_add (Arr [Arr xs]) q) = q_array q @ [Arr xs]"
  using not_self_nested [of xs] by (simp add: Queue_add_def Queue_size_def)

section \<open>Properties of the queue of deferred work\<close>

subsection \<open>What each operation does to the fields\<close>

lemma invoke_eq:
  "invoke run it s =
     (fst (run (func it) (args it) (world s)),
      s\<lparr>world := snd (run (func it) (args it) (world s)), invoked := invoked s @ [it]\<rparr>)"
  by (simp add: invoke_def case_prod_beta)

lemma head_index:
  "array s \<noteq> [] \<Longrightarrow> array s ! nat (PromiseQueue_nextIndex s) = hd (access_order s)"
  by (cases "array s" rule: rev_cases)
     (auto simp: PromiseQueue_nextIndex_def access_order_def hd_conv_nth nat_diff_distrib')

lemma head_nth:
  assumes "array s \<noteq> []"
  shows "array s ! (if fifo s then 0 else length (array s) - 1) = hd (access_order s)"
proof (cases "fifo s")
  case True
  then show ?thesis using assms by (simp add: access_order_def hd_conv_nth)
next
  case False
  then show ?thesis using assms by (simp add: access_order_def hd_rev last_conv_nth)
qed






lemma PromiseQueue_peek_begin_uncached:
  assumes "\<not> cached s" and "array s \<noteq> []"
  shows "PromiseQueue_peek_begin run s =
     (let h = hd (access_order s);
          s1 = s\<lparr>world := snd (run (func h) (args h) (world s)), invoked := invoked s @ [h]\<rparr>
      in case fst (run (func h) (args h) (world s)) of
           Promise p \<Rightarrow> (Inr p, s1)
         | Throws e \<Rightarrow> (Inl (Raised e), s1\<lparr>cached := True, result := Null, error := e\<rparr>))"
  using assms by (simp add: PromiseQueue_peek_begin_def head_index invoke_eq Let_def)


text \<open>
  A \<open>peek\<close> on a cached queue calls nothing and changes nothing. After a \<open>peek\<close> that
  evaluated the head, the next \<open>peek\<close> ends the same way, provided a failure was neither
  \<open>null\<close> nor \<open>undefined\<close>.
\<close>

lemma PromiseQueue_peek_cached:
  "cached s \<Longrightarrow> snd (PromiseQueue_peek run s) = s"
  by (simp add: PromiseQueue_peek_def PromiseQueue_peek_begin_def)

lemma PromiseQueue_peek_again:
  assumes "\<not> cached s" and "array s \<noteq> []" and "PromiseQueue_peek run s = (c, s1)"
    and "\<And>e. c = Raised e \<Longrightarrow> \<not> nullish e"
  shows "PromiseQueue_peek run s1 = (c, s1)"
  using assms(3,4)
  unfolding PromiseQueue_peek_def PromiseQueue_peek_begin_uncached [OF assms(1,2)]
  by (auto simp: Let_def PromiseQueue_peek_resume_def PromiseQueue_peek_begin_def nullish_def
      split: settled.splits call.splits)


lemma for_await_empty:
  "array s = [] \<Longrightarrow> for_await run brk s = ([], Exhausted, s)"
  by (subst for_await.simps)
     (simp add: iterator_next_def PromiseQueue_poll_def PromiseQueue_size_def)



text \<open>
  A head whose callable throws at once leaves no time for a second call: the first
  \<open>peek()\<close> has cached the failure when it returns its promise.
\<close>

lemma PromiseQueue_peek_begin_throws:
  assumes "array s \<noteq> []" and "\<not> cached s"
    and "fst (run (func (hd (access_order s))) (args (hd (access_order s))) (world s)) = Throws e"
  shows "fst (PromiseQueue_peek_begin run s) = Inl (Raised e)"
    and "cached (snd (PromiseQueue_peek_begin run s))"
    and "error (snd (PromiseQueue_peek_begin run s)) = e"
  using assms(3) unfolding PromiseQueue_peek_begin_uncached [OF assms(2,1)]
  by (simp_all add: Let_def)


lemma splice_batch_fifo:
  "1 \<le> n \<Longrightarrow> splice 0 n xs = (take (nat n) xs, drop (nat n) xs)"
  by (auto simp: splice_def Let_def min_def max_def)

lemma splice_batch_filo:
  assumes "1 \<le> n"
  shows "splice (max 0 (int (length xs) - n)) n xs =
           (drop (length xs - nat n) xs, take (length xs - nat n) xs)"
proof (cases "n \<le> int (length xs)")
  case True
  then have a: "nat (int (length xs) - n) = length xs - nat n"
    using assms by (simp add: nat_diff_distrib')
  have b: "nat n \<le> length xs" using True assms by simp
  show ?thesis
    using True assms b
    by (simp add: splice_def Let_def min_def max_def a)
next
  case False
  then have "length xs - nat n = 0" by simp
  then show ?thesis
    using False assms by (simp add: splice_def Let_def min_def max_def)
qed

lemma invoke_all_Cons_snd:
  "fst (invoke run it s) = Promise p \<Longrightarrow>
     snd (invoke_all run (it # its) s) = snd (invoke_all run its (snd (invoke run it s)))"
  by (simp add: case_prod_beta split: sum.splits prod.splits)

lemma invoke_all_fields:
  "invoke_all run its s = (r, s1) \<Longrightarrow>
     array s1 = array s \<and> cached s1 = cached s \<and> result s1 = result s
     \<and> error s1 = error s \<and> fifo s1 = fifo s"
proof (induction its arbitrary: s r s1)
  case Nil
  then show ?case by simp
next
  case (Cons it its)
  obtain c s' where i: "invoke run it s = (c, s')" by fastforce
  then have f: "array s' = array s" "cached s' = cached s" "result s' = result s"
    "error s' = error s" "fifo s' = fifo s"
    by (auto simp: invoke_eq)
  show ?case
  proof (cases c)
    case (Throws e)
    then show ?thesis using Cons.prems i f by simp
  next
    case (Promise p)
    obtain r' s2 where ia: "invoke_all run its s' = (r', s2)" by fastforce
    from Cons.IH [OF ia] have g: "array s2 = array s'" "cached s2 = cached s'"
      "result s2 = result s'" "error s2 = error s'" "fifo s2 = fifo s'" by simp_all
    have "s1 = s2" using Cons.prems i Promise ia by (cases r') simp_all
    then show ?thesis using f g by simp
  qed
qed

lemma invoke_all_Inr:
  "invoke_all run its s = (Inr ps, s1) \<Longrightarrow>
     length ps = length its \<and> invoked s1 = invoked s @ its
     \<and> (\<forall>i<length its.
           fst (invoke run (its ! i) (snd (invoke_all run (take i its) s))) = Promise (ps ! i))"
proof (induction its arbitrary: s ps s1)
  case Nil
  then show ?case by simp
next
  case (Cons it its)
  obtain c s' where i: "invoke run it s = (c, s')" by fastforce
  then have inv: "invoked s' = invoked s @ [it]" by (auto simp: invoke_eq)
  from Cons.prems i obtain p where c: "c = Promise p" by (cases c) simp_all
  obtain r' s2 where ia: "invoke_all run its s' = (r', s2)" by fastforce
  from Cons.prems i c ia obtain qs where r': "r' = Inr qs" "ps = p # qs" "s1 = s2"
    by (cases r') simp_all
  note ih = Cons.IH [OF ia [unfolded r'(1)]]
  have fp: "fst (invoke run it s) = Promise p" using i c by simp
  have nth: "fst (invoke run ((it # its) ! j) (snd (invoke_all run (take j (it # its)) s)))
      = Promise (ps ! j)" if "j < length (it # its)" for j
  proof (cases j)
    case 0
    then show ?thesis using fp r'(2) by simp
  next
    case (Suc m)
    then have m: "m < length its" using that by simp
    have "snd (invoke_all run (take j (it # its)) s) = snd (invoke_all run (take m its) s')"
      using Suc invoke_all_Cons_snd [OF fp, of "take m its"] i by simp
    then show ?thesis using ih m Suc r'(2) by simp
  qed
  show ?case using ih inv r' nth by simp
qed

lemma invoke_all_Inl:
  "invoke_all run its s = (Inl e, s1) \<Longrightarrow>
     \<exists>i<length its. invoked s1 = invoked s @ take (Suc i) its
       \<and> fst (invoke run (its ! i) (snd (invoke_all run (take i its) s))) = Throws e"
proof (induction its arbitrary: s s1)
  case Nil
  then show ?case by simp
next
  case (Cons it its)
  obtain c s' where i: "invoke run it s = (c, s')" by fastforce
  then have inv: "invoked s' = invoked s @ [it]" by (auto simp: invoke_eq)
  show ?case
  proof (cases c)
    case (Throws e')
    then have "e' = e" "s1 = s'" using Cons.prems i by simp_all
    then have "invoked s1 = invoked s @ take (Suc 0) (it # its)
        \<and> fst (invoke run ((it # its) ! 0) (snd (invoke_all run (take 0 (it # its)) s)))
            = Throws e"
      using inv i Throws by simp
    then show ?thesis by blast
  next
    case (Promise p)
    obtain r' s2 where ia: "invoke_all run its s' = (r', s2)" by fastforce
    from Cons.prems i Promise ia have r': "r' = Inl e" "s1 = s2" by (cases r'; simp)+
    from Cons.IH [OF ia [unfolded r'(1)]] obtain m where m: "m < length its"
      "invoked s2 = invoked s' @ take (Suc m) its"
      "fst (invoke run (its ! m) (snd (invoke_all run (take m its) s'))) = Throws e"
      by blast
    have fp: "fst (invoke run it s) = Promise p" using i Promise by simp
    have "snd (invoke_all run (take (Suc m) (it # its)) s)
        = snd (invoke_all run (take m its) s')"
      using invoke_all_Cons_snd [OF fp, of "take m its"] i by simp
    then have "Suc m < length (it # its)
        \<and> invoked s1 = invoked s @ take (Suc (Suc m)) (it # its)
        \<and> fst (invoke run ((it # its) ! Suc m)
                  (snd (invoke_all run (take (Suc m) (it # its)) s))) = Throws e"
      using m inv r'(2) by simp
    then show ?thesis by blast
  qed
qed

lemma reasons_Nil_fulfilled:
  "reasons ps = [] \<Longrightarrow> ps = map Resolved (fulfilled ps) \<and> length (fulfilled ps) = length ps"
  by (induction ps rule: reasons.induct) simp_all

lemma reasons_set: "set (reasons ps) = {e. Rejected e \<in> set ps}"
  by (induction ps rule: reasons.induct) auto

lemma PromiseQueue_batch_eq:
  assumes "array s \<noteq> []" and "1 \<le> n"
  shows "PromiseQueue_batch run n s =
     (let k = min (nat n) (length (array s));
          next = (if fifo s then take k (array s) else drop (length (array s) - k) (array s));
          rest = (if fifo s then drop k (array s) else take (length (array s) - k) (array s))
      in case invoke_all run next (s\<lparr>array := rest\<rparr>) of
           (Inl e, s1) \<Rightarrow> ({Raised e}, s1)
         | (Inr ps, s1) \<Rightarrow> (Promise_all ps, s1))"
proof -
  have k: "length (array s) - min (nat n) (length (array s)) = length (array s) - nat n"
    by (simp add: min_def)
  have t: "take (min (nat n) (length (array s))) (array s) = take (nat n) (array s)"
    by (simp add: min_def)
  have d: "drop (min (nat n) (length (array s))) (array s) = drop (nat n) (array s)"
    by (simp add: min_def)
  show ?thesis
    using assms
    by (simp add: PromiseQueue_batch_def PromiseQueue_nextBatchIndex_def splice_batch_fifo
        splice_batch_filo Let_def k t d)
qed

lemmas pq_defs = PromiseQueue_new_def PromiseQueue_add_def PromiseQueue_peek_def
  PromiseQueue_peek_begin_def PromiseQueue_peek_resume_def PromiseQueue_poll_def
  PromiseQueue_element_def PromiseQueue_remove_def PromiseQueue_batch_def
  PromiseQueue_nextIndex_def PromiseQueue_nextBatchIndex_def PromiseQueue_useFILO_def
  PromiseQueue_useFIFO_def PromiseQueue_size_def PromiseQueue_clear_def
  invoke_def splice_def Promise_all_def cache_def nullish_def Let_def

subsection \<open>Polling, batches, overlapping peeks, iteration and the cache\<close>

text \<open>
  Claim C3 fails on the code. A head whose callable rejects with \<open>undefined\<close> is evaluated
  by \<open>peek()\<close>, which throws \<open>undefined\<close> and caches the failure. The following
  \<open>poll()\<close> removes the entry and calls nothing, but it does not throw the cached failure:
  it returns \<open>null\<close>.
\<close>

theorem poll_undefined_failure_not_rethrown:
  "(let s1 = PromiseQueue_add Fail [] (PromiseQueue_new 0);
        s2 = snd (PromiseQueue_peek sample_run s1)
    in fst (PromiseQueue_peek sample_run s1) = Raised Undefined
       \<and> array s2 = [\<lparr>func = Fail, args = ([] :: nat jsval list)\<rparr>]
       \<and> cached s2
       \<and> fst (PromiseQueue_poll sample_run s2) = Returned Null
       \<and> array (snd (PromiseQueue_poll sample_run s2)) = []
       \<and> invoked (snd (PromiseQueue_poll sample_run s2)) = [\<lparr>func = Fail, args = []\<rparr>])"
  by (simp add: pq_defs)

text \<open>
  Claim C5, as stated, fails: on a queue of one entry whose callable fails, \<open>batch(2)\<close>
  returns no sequence of outcomes; it throws the failure (and the entry is removed).
\<close>

theorem batch_failure_counterexample:
  "PromiseQueue_size (PromiseQueue_add Fail [Val 9] (PromiseQueue_new 0)) = 1
   \<and> fst (PromiseQueue_batch sample_run 2 (PromiseQueue_add Fail [Val 9] (PromiseQueue_new 0)))
       = {Raised (Val (9::nat))}
   \<and> array (snd (PromiseQueue_batch sample_run 2
         (PromiseQueue_add Fail [Val (9::nat)] (PromiseQueue_new 0)))) = []"
  by (simp add: pq_defs)

text \<open>
  Claim C5, amended. \<open>batch(n)\<close> on an empty queue or with \<open>n < 1\<close> returns the empty array
  and changes nothing. Otherwise it removes \<open>k = min(n, size)\<close> entries from the access end
  (the first \<open>k\<close> under FIFO, the last \<open>k\<close> under FILO, in their stored order), so a queue
  of size at most \<open>n\<close> is emptied, and it leaves the cache slot as it was. It calls the
  callables of the removed entries in that order. When each call returns a promise
  (\<open>r = Inr ps\<close>), all \<open>k\<close> are called; if every promise is resolved, \<open>batch\<close> returns
  exactly \<open>k\<close> values, the \<open>i\<close>-th being the value of the \<open>i\<close>-th removed entry; if some
  promise is rejected, \<open>batch\<close> returns nothing and throws: what it can throw are exactly
  the reasons of the rejected promises. When a call throws at once (\<open>r = Inl e\<close>), the
  removed entries after it are not called and \<open>batch\<close> throws what that call threw.
\<close>

theorem PromiseQueue_batch_removes:
  "(array s = [] \<or> n < 1 \<longrightarrow> PromiseQueue_batch run n s = ({Returned (Arr [])}, s))
   \<and> (array s \<noteq> [] \<and> 1 \<le> n \<longrightarrow>
       (let k = min (nat n) (length (array s));
            next = (if fifo s then take k (array s)
                    else drop (length (array s) - k) (array s));
            rest = (if fifo s then drop k (array s)
                    else take (length (array s) - k) (array s));
            r = fst (invoke_all run next (s\<lparr>array := rest\<rparr>));
            s1 = snd (PromiseQueue_batch run n s)
        in array s1 = rest
           \<and> cache s1 = cache s
           \<and> fifo s1 = fifo s
           \<and> length next = k
           \<and> (length (array s) \<le> nat n \<longrightarrow> rest = [] \<and> k = length (array s))
           \<and> (\<forall>ps. r = Inr ps \<longrightarrow>
                 invoked s1 = invoked s @ next
                 \<and> length ps = k
                 \<and> (\<forall>i<k. fst (invoke run (next ! i)
                                 (snd (invoke_all run (take i next) (s\<lparr>array := rest\<rparr>))))
                            = Promise (ps ! i))
                 \<and> (reasons ps = [] \<longrightarrow>
                       fst (PromiseQueue_batch run n s) = {Returned (Arr (fulfilled ps))}
                       \<and> ps = map Resolved (fulfilled ps)
                       \<and> length (fulfilled ps) = k)
                 \<and> (reasons ps \<noteq> [] \<longrightarrow>
                       fst (PromiseQueue_batch run n s) = Raised ` {e. Rejected e \<in> set ps}
                       \<and> (\<exists>e. Rejected e \<in> set ps)))
           \<and> (\<forall>e. r = Inl e \<longrightarrow>
                 fst (PromiseQueue_batch run n s) = {Raised e}
                 \<and> (\<exists>i<k. invoked s1 = invoked s @ take (Suc i) next
                        \<and> fst (invoke run (next ! i)
                                 (snd (invoke_all run (take i next) (s\<lparr>array := rest\<rparr>))))
                            = Throws e))))"
proof (intro conjI impI)
  assume "array s = [] \<or> n < 1"
  then show "PromiseQueue_batch run n s = ({Returned (Arr [])}, s)"
    by (auto simp: PromiseQueue_batch_def)
next
  assume a: "array s \<noteq> [] \<and> 1 \<le> n"
  define k where "k = min (nat n) (length (array s))"
  define nxt where "nxt = (if fifo s then take k (array s)
                    else drop (length (array s) - k) (array s))"
  define rest where "rest = (if fifo s then drop k (array s)
                    else take (length (array s) - k) (array s))"
  define r where "r = fst (invoke_all run nxt (s\<lparr>array := rest\<rparr>))"
  define s1 where "s1 = snd (invoke_all run nxt (s\<lparr>array := rest\<rparr>))"
  have ia: "invoke_all run nxt (s\<lparr>array := rest\<rparr>) = (r, s1)"
    by (simp add: r_def s1_def)
  from a have a1: "array s \<noteq> []" and a2: "1 \<le> n" by simp_all
  have b0: "PromiseQueue_batch run n s
      = (case invoke_all run nxt (s\<lparr>array := rest\<rparr>) of
           (Inl e, s1) \<Rightarrow> ({Raised e}, s1)
         | (Inr ps, s1) \<Rightarrow> (Promise_all ps, s1))"
    unfolding k_def nxt_def rest_def
    by (rule PromiseQueue_batch_eq [OF a1 a2, unfolded Let_def])
  have b: "PromiseQueue_batch run n s
      = (case r of Inl e \<Rightarrow> {Raised e} | Inr ps \<Rightarrow> Promise_all ps, s1)"
    unfolding b0 ia by (cases r) simp_all
  note f = invoke_all_fields [OF ia]
  have ln: "length nxt = k"
    by (auto simp: nxt_def k_def min_def)
  have c1: "array s1 = rest" "cache s1 = cache s" "fifo s1 = fifo s"
    using f by (simp_all add: cache_def)
  have c3: "length (array s) \<le> nat n \<longrightarrow> rest = [] \<and> k = length (array s)"
    by (auto simp: rest_def k_def min_def)
  have c4: "invoked s1 = invoked s @ nxt
      \<and> length ps = k
      \<and> (\<forall>i<k. fst (invoke run (nxt ! i)
                      (snd (invoke_all run (take i nxt) (s\<lparr>array := rest\<rparr>))))
                 = Promise (ps ! i))
      \<and> (reasons ps = [] \<longrightarrow>
            (case r of Inl e \<Rightarrow> {Raised e} | Inr ps \<Rightarrow> Promise_all ps)
              = {Returned (Arr (fulfilled ps))}
            \<and> ps = map Resolved (fulfilled ps)
            \<and> length (fulfilled ps) = k)
      \<and> (reasons ps \<noteq> [] \<longrightarrow>
            (case r of Inl e \<Rightarrow> {Raised e} | Inr ps \<Rightarrow> Promise_all ps)
              = Raised ` {e. Rejected e \<in> set ps}
            \<and> (\<exists>e. Rejected e \<in> set ps))" if "r = Inr ps" for ps
  proof -
    note g = invoke_all_Inr [OF ia [unfolded that]]
    have l: "length ps = k" using g ln by simp
    have ne: "reasons ps \<noteq> [] \<Longrightarrow> \<exists>e. Rejected e \<in> set ps"
    proof -
      assume "reasons ps \<noteq> []"
      then have "set (reasons ps) \<noteq> {}" by simp
      then show ?thesis unfolding reasons_set by blast
    qed
    show ?thesis
      using g ln l that reasons_Nil_fulfilled [of ps] ne
      by (simp add: Promise_all_def reasons_set)
  qed
  have c5: "(case r of Inl e \<Rightarrow> {Raised e} | Inr ps \<Rightarrow> Promise_all ps) = {Raised e}
      \<and> (\<exists>i<k. invoked s1 = invoked s @ take (Suc i) nxt
             \<and> fst (invoke run (nxt ! i)
                      (snd (invoke_all run (take i nxt) (s\<lparr>array := rest\<rparr>))))
                 = Throws e)" if "r = Inl e" for e
    using invoke_all_Inl [OF ia [unfolded that]] ln that by simp
  show "let k = min (nat n) (length (array s));
            next = (if fifo s then take k (array s)
                    else drop (length (array s) - k) (array s));
            rest = (if fifo s then drop k (array s)
                    else take (length (array s) - k) (array s));
            r = fst (invoke_all run next (s\<lparr>array := rest\<rparr>));
            s1 = snd (PromiseQueue_batch run n s)
        in array s1 = rest
           \<and> cache s1 = cache s
           \<and> fifo s1 = fifo s
           \<and> length next = k
           \<and> (length (array s) \<le> nat n \<longrightarrow> rest = [] \<and> k = length (array s))
           \<and> (\<forall>ps. r = Inr ps \<longrightarrow>
                 invoked s1 = invoked s @ next
                 \<and> length ps = k
                 \<and> (\<forall>i<k. fst (invoke run (next ! i)
                                 (snd (invoke_all run (take i next) (s\<lparr>array := rest\<rparr>))))
                            = Promise (ps ! i))
                 \<and> (reasons ps = [] \<longrightarrow>
                       fst (PromiseQueue_batch run n s) = {Returned (Arr (fulfilled ps))}
                       \<and> ps = map Resolved (fulfilled ps)
                       \<and> length (fulfilled ps) = k)
                 \<and> (reasons ps \<noteq> [] \<longrightarrow>
                       fst (PromiseQueue_batch run n s) = Raised ` {e. Rejected e \<in> set ps}
                       \<and> (\<exists>e. Rejected e \<in> set ps)))
           \<and> (\<forall>e. r = Inl e \<longrightarrow>
                 fst (PromiseQueue_batch run n s) = {Raised e}
                 \<and> (\<exists>i<k. invoked s1 = invoked s @ take (Suc i) next
                        \<and> fst (invoke run (next ! i)
                                 (snd (invoke_all run (take i next) (s\<lparr>array := rest\<rparr>))))
                            = Throws e))"
    unfolding Let_def k_def [symmetric] nxt_def [symmetric] rest_def [symmetric]
      r_def [symmetric] b snd_conv fst_conv
    using c1 c3 c4 c5 ln by blast
qed

theorem PromiseQueue_batch_removes_witness:
  "fst (PromiseQueue_batch sample_run 2
      \<lparr>array = [\<lparr>func = Echo, args = [Val 1]\<rparr>, \<lparr>func = Echo, args = [Val 2]\<rparr>,
                \<lparr>func = Echo, args = [Val 3]\<rparr>],
       cached = False, result = Null, error = Null, fifo = False, world = 0, invoked = []\<rparr>)
     = {Returned (Arr [Val 2, Val (3::nat)])}
   \<and> array (snd (PromiseQueue_batch sample_run 2
      \<lparr>array = [\<lparr>func = Echo, args = [Val 1]\<rparr>, \<lparr>func = Echo, args = [Val 2]\<rparr>,
                \<lparr>func = Echo, args = [Val (3::nat)]\<rparr>],
       cached = False, result = Null, error = Null, fifo = False, world = 0, invoked = []\<rparr>))
     = [\<lparr>func = Echo, args = [Val 1]\<rparr>]
   \<and> invoked (snd (PromiseQueue_batch sample_run 2
      \<lparr>array = [\<lparr>func = Echo, args = [Val 1]\<rparr>, \<lparr>func = Echo, args = [Val 2]\<rparr>,
                \<lparr>func = Echo, args = [Val (3::nat)]\<rparr>],
       cached = False, result = Null, error = Null, fifo = False, world = 0, invoked = []\<rparr>))
     = [\<lparr>func = Echo, args = [Val 2]\<rparr>, \<lparr>func = Echo, args = [Val 3]\<rparr>]
   \<and> fst (PromiseQueue_batch sample_run 3
      \<lparr>array = [\<lparr>func = Echo, args = [Val 1]\<rparr>, \<lparr>func = Crash, args = [Val 7]\<rparr>,
                \<lparr>func = Echo, args = [Val 3]\<rparr>],
       cached = False, result = Null, error = Null, fifo = True, world = 0, invoked = []\<rparr>)
     = {Raised (Val (7::nat))}
   \<and> array (snd (PromiseQueue_batch sample_run 3
      \<lparr>array = [\<lparr>func = Echo, args = [Val 1]\<rparr>, \<lparr>func = Crash, args = [Val 7]\<rparr>,
                \<lparr>func = Echo, args = [Val (3::nat)]\<rparr>],
       cached = False, result = Null, error = Null, fifo = True, world = 0, invoked = []\<rparr>))
     = []
   \<and> invoked (snd (PromiseQueue_batch sample_run 3
      \<lparr>array = [\<lparr>func = Echo, args = [Val 1]\<rparr>, \<lparr>func = Crash, args = [Val 7]\<rparr>,
                \<lparr>func = Echo, args = [Val (3::nat)]\<rparr>],
       cached = False, result = Null, error = Null, fifo = True, world = 0, invoked = []\<rparr>))
     = [\<lparr>func = Echo, args = [Val 1]\<rparr>, \<lparr>func = Crash, args = [Val 7]\<rparr>]"
proof -
  let ?s = "\<lparr>array = [\<lparr>func = Echo, args = [Val 1]\<rparr>, \<lparr>func = Echo, args = [Val 2]\<rparr>,
                \<lparr>func = Echo, args = [Val (3::nat)]\<rparr>],
       cached = False, result = Null, error = Null, fifo = False, world = 0::nat, invoked = []\<rparr>"
  let ?t = "\<lparr>array = [\<lparr>func = Echo, args = [Val 1]\<rparr>, \<lparr>func = Crash, args = [Val 7]\<rparr>,
                \<lparr>func = Echo, args = [Val (3::nat)]\<rparr>],
       cached = False, result = Null, error = Null, fifo = True, world = 0::nat, invoked = []\<rparr>"
  have b: "fst (PromiseQueue_batch sample_run 2 ?s) = {Returned (Arr [Val 2, Val 3])}"
    by (simp add: pq_defs)
  have i: "invoked (snd (PromiseQueue_batch sample_run 2 ?s))
      = [\<lparr>func = Echo, args = [Val 2]\<rparr>, \<lparr>func = Echo, args = [Val 3]\<rparr>]"
    by (simp add: pq_defs)
  have c: "fst (PromiseQueue_batch sample_run 3 ?t) = {Raised (Val 7)}"
    by (simp add: pq_defs)
  have j: "invoked (snd (PromiseQueue_batch sample_run 3 ?t))
      = [\<lparr>func = Echo, args = [Val 1]\<rparr>, \<lparr>func = Crash, args = [Val 7]\<rparr>]"
    by (simp add: pq_defs)
  have k: "min (nat 2) (length (array ?s)) = 2" "min (nat 3) (length (array ?t)) = 3"
    by simp_all
  have ne: "array ?s \<noteq> [] \<and> (1::int) \<le> 2" "array ?t \<noteq> [] \<and> (1::int) \<le> 3"
    by simp_all
  from PromiseQueue_batch_removes [of ?s 2 sample_run] ne(1)
  have "array (snd (PromiseQueue_batch sample_run 2 ?s))
      = (if fifo ?s then drop (min (nat 2) (length (array ?s))) (array ?s)
         else take (length (array ?s) - min (nat 2) (length (array ?s))) (array ?s))"
    unfolding Let_def by blast
  then have a1: "array (snd (PromiseQueue_batch sample_run 2 ?s))
      = [\<lparr>func = Echo, args = [Val 1]\<rparr>]"
    by simp
  from PromiseQueue_batch_removes [of ?t 3 sample_run] ne(2)
  have "array (snd (PromiseQueue_batch sample_run 3 ?t))
      = (if fifo ?t then drop (min (nat 3) (length (array ?t))) (array ?t)
         else take (length (array ?t) - min (nat 3) (length (array ?t))) (array ?t))"
    unfolding Let_def by blast
  then have a2: "array (snd (PromiseQueue_batch sample_run 3 ?t)) = []"
    by simp
  show ?thesis using b i c j a1 a2 by blast
qed

text \<open>
  Claim C9, as stated, fails: a second \<open>peek()\<close> that begins while the first one waits for
  the head's promise calls the head's callable again.
\<close>

theorem overlapping_peeks_counterexample:
  "fst (PromiseQueue_peek_begin sample_run (PromiseQueue_add Echo [Val 1] (PromiseQueue_new 0)))
     = Inr (Resolved (Val (1::nat)))
   \<and> fst (PromiseQueue_peek_begin sample_run
        (snd (PromiseQueue_peek_begin sample_run
               (PromiseQueue_add Echo [Val 1] (PromiseQueue_new 0)))))
     = Inr (Resolved (Val (1::nat)))
   \<and> invoked (snd (PromiseQueue_peek_begin sample_run
        (snd (PromiseQueue_peek_begin sample_run
               (PromiseQueue_add Echo [Val (1::nat)] (PromiseQueue_new 0))))))
     = [\<lparr>func = Echo, args = [Val 1]\<rparr>, \<lparr>func = Echo, args = [Val 1]\<rparr>]"
  by (simp add: pq_defs)

text \<open>
  Claim C9, amended. The queue keeps no mark of an evaluation in progress. On a queue that
  is not empty and has no cached outcome, a call of \<open>peek\<close> calls the head's callable; when
  that call returned a promise, so that the first \<open>peek\<close> is waiting, a second call of
  \<open>peek\<close> that begins before the first has resumed calls the callable again: the head's
  callable is called twice. Only a call that begins after the first has resumed (whatever
  its promise settled to) finishes at once from the cache, calling nothing.
\<close>

theorem PromiseQueue_peek_overlap:
  assumes "array s \<noteq> []" and "\<not> cached s"
    and "fst (run (func (array s ! (if fifo s then 0 else length (array s) - 1)))
                  (args (array s ! (if fifo s then 0 else length (array s) - 1)))
                  (world s)) = Promise p"
  shows "(let h = array s ! (if fifo s then 0 else length (array s) - 1);
              s1 = snd (PromiseQueue_peek_begin run s);
              s2 = snd (PromiseQueue_peek_begin run s1)
          in fst (PromiseQueue_peek_begin run s) = Inr p
             \<and> invoked s1 = invoked s @ [h]
             \<and> fst (PromiseQueue_peek_begin run s1)
                 = (case fst (run (func h) (args h) (world s1)) of
                      Promise q \<Rightarrow> Inr q
                    | Throws e \<Rightarrow> Inl (Raised e))
             \<and> invoked s2 = invoked s @ [h, h]
             \<and> (\<forall>q. (let s3 = snd (PromiseQueue_peek_resume q s1)
                      in isl (fst (PromiseQueue_peek_begin run s3))
                         \<and> snd (PromiseQueue_peek_begin run s3) = s3
                         \<and> invoked s3 = invoked s @ [h])))"
proof -
  note h = head_nth [OF assms(1)]
  let ?h = "hd (access_order s)"
  let ?s1 = "s\<lparr>world := snd (run (func ?h) (args ?h) (world s)), invoked := invoked s @ [?h]\<rparr>"
  have pr: "fst (run (func ?h) (args ?h) (world s)) = Promise p"
    using assms(3) unfolding h .
  have b1: "PromiseQueue_peek_begin run s = (Inr p, ?s1)"
    using PromiseQueue_peek_begin_uncached [OF assms(2,1), of run] pr by (simp add: Let_def)
  have u1: "\<not> cached ?s1" "array ?s1 \<noteq> []" "access_order ?s1 = access_order s"
    using assms by (simp_all add: access_order_def)
  have b2: "fst (PromiseQueue_peek_begin run ?s1)
        = (case fst (run (func ?h) (args ?h) (world ?s1)) of
             Promise q \<Rightarrow> Inr q
           | Throws e \<Rightarrow> Inl (Raised e))"
      "invoked (snd (PromiseQueue_peek_begin run ?s1)) = invoked s @ [?h, ?h]"
    using PromiseQueue_peek_begin_uncached [OF u1(1,2), of run] u1(3)
    by (simp_all add: Let_def split: call.splits)
  have b3: "isl (fst (PromiseQueue_peek_begin run (snd (PromiseQueue_peek_resume q ?s1))))
      \<and> snd (PromiseQueue_peek_begin run (snd (PromiseQueue_peek_resume q ?s1)))
          = snd (PromiseQueue_peek_resume q ?s1)
      \<and> invoked (snd (PromiseQueue_peek_resume q ?s1)) = invoked s @ [?h]" for q
    by (cases q) (simp_all add: PromiseQueue_peek_resume_def PromiseQueue_peek_begin_def)
  show ?thesis
    unfolding h Let_def b1 snd_conv fst_conv
    using b2 b3 by simp
qed

theorem PromiseQueue_peek_overlap_witness:
  "invoked (snd (PromiseQueue_peek_begin sample_run
      (snd (PromiseQueue_peek_begin sample_run
        \<lparr>array = [\<lparr>func = Echo, args = [Val (1::nat)]\<rparr>],
         cached = False, result = Null, error = Null, fifo = True, world = 0::nat,
         invoked = []\<rparr>))))
     = [\<lparr>func = Echo, args = [Val 1]\<rparr>, \<lparr>func = Echo, args = [Val 1]\<rparr>]"
proof -
  let ?s = "\<lparr>array = [\<lparr>func = Echo, args = [Val (1::nat)]\<rparr>],
         cached = False, result = Null, error = Null, fifo = True, world = 0::nat,
         invoked = []\<rparr>"
  have a: "array ?s \<noteq> []" and b: "\<not> cached ?s" by simp_all
  have c: "fst (sample_run (func (array ?s ! (if fifo ?s then 0 else length (array ?s) - 1)))
                  (args (array ?s ! (if fifo ?s then 0 else length (array ?s) - 1)))
                  (world ?s)) = Promise (Resolved (Val 1))"
    by simp
  from PromiseQueue_peek_overlap [of ?s sample_run "Resolved (Val 1)", OF a b c]
  show ?thesis unfolding Let_def by simp
qed




text \<open>
  Claim C1 fails on the code. After \<open>add(f, 1)\<close>, \<open>add(f, 2)\<close> and \<open>peek()\<close> the cache holds
  the outcome of the first entry. \<open>useFILO()\<close> makes the second entry the head and leaves
  the cache: \<open>peek()\<close> returns the first entry's value, and \<open>poll()\<close> removes the second
  entry and returns the first entry's value, the second callable never called.
  \<open>batch(1)\<close> removes the head and leaves the cache as well.
\<close>

theorem cache_outlives_head:
  "(let s2 = PromiseQueue_add Echo [Val 2] (PromiseQueue_add Echo [Val 1] (PromiseQueue_new 0));
        s3 = snd (PromiseQueue_peek sample_run s2);
        s4 = PromiseQueue_useFILO s3;
        s5 = snd (PromiseQueue_batch sample_run 1 s3)
    in cache s4 = Success (Val (1::nat))
       \<and> array s4 ! nat (PromiseQueue_nextIndex s4) = \<lparr>func = Echo, args = [Val 2]\<rparr>
       \<and> invoked s4 = [\<lparr>func = Echo, args = [Val 1]\<rparr>]
       \<and> fst (PromiseQueue_peek sample_run s4) = Returned (Val 1)
       \<and> fst (PromiseQueue_poll sample_run s4) = Returned (Val 1)
       \<and> array (snd (PromiseQueue_poll sample_run s4)) = [\<lparr>func = Echo, args = [Val 1]\<rparr>]
       \<and> invoked (snd (PromiseQueue_poll sample_run s4)) = [\<lparr>func = Echo, args = [Val 1]\<rparr>]
       \<and> array s5 = [\<lparr>func = Echo, args = [Val 2]\<rparr>]
       \<and> cache s5 = Success (Val 1)
       \<and> fst (PromiseQueue_peek sample_run s5) = Returned (Val 1))"
  by (simp add: pq_defs)

text \<open>
  Claim C2 fails on the code. A callable that rejects with \<open>undefined\<close> is called once by
  the first \<open>peek()\<close>, which throws \<open>undefined\<close>; the second \<open>peek()\<close> does not throw it again,
  it returns \<open>null\<close>.
\<close>

theorem peek_undefined_failure_not_rethrown:
  "(let s1 = PromiseQueue_add Fail [] (PromiseQueue_new 0);
        s2 = snd (PromiseQueue_peek sample_run s1)
    in array s1 = [\<lparr>func = Fail, args = ([] :: nat jsval list)\<rparr>]
       \<and> fst (PromiseQueue_peek sample_run s1) = Raised Undefined
       \<and> fst (PromiseQueue_peek sample_run s2) = Returned Null
       \<and> invoked (snd (PromiseQueue_peek sample_run s2)) = [\<lparr>func = Fail, args = []\<rparr>])"
  by (simp add: pq_defs)

text \<open>
  Claim C4 fails on the code. After \<open>add(f, 1)\<close>, \<open>peek()\<close> and \<open>batch(1)\<close> the queue is
  empty and the cache still holds the outcome: \<open>peek()\<close> returns it, not \<open>null\<close>.
\<close>

theorem peek_empty_returns_stale_cache:
  "(let s1 = PromiseQueue_add Echo [Val 1] (PromiseQueue_new 0);
        s2 = snd (PromiseQueue_peek sample_run s1);
        s3 = snd (PromiseQueue_batch sample_run 1 s2)
    in PromiseQueue_size s3 = 0
       \<and> fst (PromiseQueue_peek sample_run s3) = Returned (Val (1::nat)))"
  by (simp add: pq_defs)

text \<open>
  Claim C7 fails on the code. On a queue of one entry whose callable resolves to
  \<open>undefined\<close>, \<open>element()\<close> and \<open>remove()\<close> throw the empty-queue error although the size is 1.
\<close>

theorem element_remove_raise_on_undefined_result:
  "(let s1 = PromiseQueue_add Echo [] (PromiseQueue_new 0)
    in PromiseQueue_size s1 = 1
       \<and> fst (PromiseQueue_element sample_run s1)
           = (Raised PromiseQueueEmptyError :: (nat jsval, nat) completion)
       \<and> PromiseQueue_size (snd (PromiseQueue_element sample_run s1)) = 1
       \<and> fst (PromiseQueue_remove sample_run s1) = Raised PromiseQueueEmptyError)"
  by (simp add: pq_defs)

end
